theory Spec2Isabelle
  imports Complex_Main "HOL-Library.Char_ord" "HOL-Library.List_Lexorder"
    "HOL-Library.Product_Lexorder" "HOL-Library.Multiset"
begin

section \<open>Strings, cells and column names\<close>

text \<open>
  The module \<open>modules/superspreaders.py\<close> reads two CSV files with \<open>dtype=str\<close>: every
  cell is a string or missing (NaN). A cell is a \<open>string option\<close>, \<open>None\<close> being NaN.
  Strings are byte lists; \<open>lower\<close> and \<open>strip\<close> are Python's \<open>str.lower\<close> and
  \<open>str.strip\<close> on ASCII text.
\<close>

type_synonym cell = "string option"

definition deleted :: string where
  "deleted = ''[deleted]''"

definition fillna :: "cell \<Rightarrow> string" where
  "fillna c = (case c of None \<Rightarrow> deleted | Some s \<Rightarrow> s)"

definition lower_char :: "char \<Rightarrow> char" where
  "lower_char c =
     (let n = (of_char c :: nat) in if 65 \<le> n \<and> n \<le> 90 then char_of (n + 32) else c)"

definition lower :: "string \<Rightarrow> string" where
  "lower s = map lower_char s"

definition is_space :: "char \<Rightarrow> bool" where
  "is_space c = ((of_char c :: nat) \<in> set [9, 10, 11, 12, 13, 28, 29, 30, 31, 32])"

definition strip :: "string \<Rightarrow> string" where
  "strip s = rev (dropWhile is_space (rev (dropWhile is_space s)))"

fun starts_with :: "string \<Rightarrow> string \<Rightarrow> bool" where
  "starts_with s [] = True"
| "starts_with [] (p # ps) = False"
| "starts_with (c # cs) (p # ps) = (c = p \<and> starts_with cs ps)"

text \<open>\<open>contains s sub\<close> is Python's \<open>sub in s\<close>.\<close>

fun contains :: "string \<Rightarrow> string \<Rightarrow> bool" where
  "contains [] sub = (sub = [])"
| "contains (c # cs) sub = (starts_with (c # cs) sub \<or> contains cs sub)"

datatype py_error = FileNotFoundError | IndexError

datatype nx_error = PowerIterationFailedConvergence

section \<open>Column detection for the comment relation (lines 71--94)\<close>

text \<open>
  \<open>comment_post_col\<close>: the first column whose lower-cased name is one of the five
  exact names; else the first column whose lower-cased name contains one of four
  fragments; else \<open>columns[0]\<close>, which raises \<open>IndexError\<close> on a frame with no column.
\<close>

definition comment_post_names :: "string list" where
  "comment_post_names = [''post_id'', ''link_id'', ''post'', ''permalink'', ''url'']"

definition comment_post_fragments :: "string list" where
  "comment_post_fragments = [''post'', ''link'', ''perma'', ''url'']"

definition comment_author_names :: "string list" where
  "comment_author_names = [''author'', ''comment_author'', ''user'', ''username'', ''by'']"

definition detect_comment_post_col :: "string list \<Rightarrow> py_error + string" where
  "detect_comment_post_col columns =
     (case find (\<lambda>c. lower c \<in> set comment_post_names) columns of
        Some c \<Rightarrow> Inr c
      | None \<Rightarrow>
         (case find (\<lambda>c. list_ex (contains (lower c)) comment_post_fragments) columns of
            Some c \<Rightarrow> Inr c
          | None \<Rightarrow> (case columns of [] \<Rightarrow> Inl IndexError | c # _ \<Rightarrow> Inr c)))"

text \<open>
  \<open>comment_author_col\<close>: the first column whose lower-cased name is one of the five
  author names; else \<open>columns[1] if len(columns) > 1 else columns[0]\<close>.
\<close>

definition detect_comment_author_col :: "string list \<Rightarrow> py_error + string" where
  "detect_comment_author_col columns =
     (case find (\<lambda>c. lower c \<in> set comment_author_names) columns of
        Some c \<Rightarrow> Inr c
      | None \<Rightarrow>
         (if length columns > 1 then Inr (columns ! 1)
          else (case columns of [] \<Rightarrow> Inl IndexError | c # _ \<Rightarrow> Inr c)))"

text \<open>Both detections in the order of the source: the post column first.\<close>

definition detect_comment_cols :: "string list \<Rightarrow> py_error + (string \<times> string)" where
  "detect_comment_cols columns =
     (case detect_comment_post_col columns of
        Inl e \<Rightarrow> Inl e
      | Inr p \<Rightarrow>
         (case detect_comment_author_col columns of
            Inl e \<Rightarrow> Inl e
          | Inr a \<Rightarrow> Inr (p, a)))"

section \<open>The interaction graph (lines 96--150)\<close>

text \<open>
  A \<open>networkx.Graph\<close>: the nodes in insertion order, and the adjacency as a map on
  ordered pairs that \<open>add_edge\<close> and the weight update write in both directions, as
  networkx stores one attribute dictionary under \<open>G[a][b]\<close> and \<open>G[b][a]\<close>.
\<close>

datatype edge_type = author_comment | co_comment

record edge_data =
  weight :: int
  etype :: edge_type

record graph =
  nodes :: "string list"
  adj :: "string \<times> string \<rightharpoonup> edge_data"

definition empty_graph :: graph where
  "empty_graph = \<lparr>nodes = [], adj = Map.empty\<rparr>"

definition add_node :: "graph \<Rightarrow> string \<Rightarrow> graph" where
  "add_node G u = (if u \<in> set (nodes G) then G else G\<lparr>nodes := nodes G @ [u]\<rparr>)"

definition has_edge :: "graph \<Rightarrow> string \<Rightarrow> string \<Rightarrow> bool" where
  "has_edge G a b = (adj G (a, b) \<noteq> None)"

definition add_edge :: "graph \<Rightarrow> string \<Rightarrow> string \<Rightarrow> edge_data \<Rightarrow> graph" where
  "add_edge G a b d =
     (let G' = add_node (add_node G a) b
      in G'\<lparr>adj := (adj G')((a, b) \<mapsto> d, (b, a) \<mapsto> d)\<rparr>)"

text \<open>
  The body shared by both passes:
  \<^verbatim>\<open>if G.has_edge(a, b): G[a][b]["weight"] += w
else: G.add_edge(a, b, weight=w, type=t)\<close>
\<close>

definition accumulate :: "graph \<Rightarrow> string \<Rightarrow> string \<Rightarrow> int \<Rightarrow> edge_type \<Rightarrow> graph" where
  "accumulate G a b w t =
     (case adj G (a, b) of
        Some e \<Rightarrow>
          (let e' = e\<lparr>weight := weight e + w\<rparr>
           in G\<lparr>adj := (adj G)((a, b) \<mapsto> e', (b, a) \<mapsto> e')\<rparr>)
      | None \<Rightarrow> add_edge G a b \<lparr>weight = w, etype = t\<rparr>)"

text \<open>The weight of the edge between two accounts, 0 when there is none.\<close>

definition wt :: "graph \<Rightarrow> string \<Rightarrow> string \<Rightarrow> int" where
  "wt G u v = (case adj G (u, v) of None \<Rightarrow> 0 | Some e \<Rightarrow> weight e)"

subsection \<open>Normalisation of the two selected columns (lines 96--105)\<close>

text \<open>
  A relation is the list of its rows, each the pair of the two selected cells
  (identifier, author). \<open>fillna("[deleted]")\<close> fills both columns; only the identifier
  is stripped.
\<close>

type_synonym raw_row = "cell \<times> cell"
type_synonym row = "string \<times> string"

definition normalize :: "raw_row list \<Rightarrow> row list" where
  "normalize rs = map (\<lambda>(i, a). (strip (fillna i), fillna a)) rs"

subsection \<open>Nodes (lines 110--113)\<close>

text \<open>
  \<open>unique\<close> is pandas' \<open>Series.unique\<close>: the distinct values in order of first
  appearance. \<open>all_users\<close> is a Python set; the order in which the loop visits it is
  the interpreter's, and the model visits it in the order of \<open>remdups\<close>.
\<close>

definition unique :: "'a list \<Rightarrow> 'a list" where
  "unique xs = rev (remdups (rev xs))"

definition all_users :: "row list \<Rightarrow> row list \<Rightarrow> string list" where
  "all_users posts comments = remdups (unique (map snd posts) @ unique (map snd comments))"

definition add_nodes :: "graph \<Rightarrow> string list \<Rightarrow> graph" where
  "add_nodes G us = foldl add_node G us"

subsection \<open>Reply edges (lines 115--135)\<close>

text \<open>
  \<open>comments_df.merge(posts_df, on="post_id", how="left")\<close>: every comment row, in
  order, once per post row with the same identifier, and once with a missing
  \<open>post_author\<close> when there is none.
\<close>

definition merge_left :: "row list \<Rightarrow> row list \<Rightarrow> (string \<times> string \<times> cell) list" where
  "merge_left comments posts =
     concat (map (\<lambda>(pid, c).
       (case filter (\<lambda>(q, a). q = pid) posts of
          [] \<Rightarrow> [(pid, c, None)]
        | ms \<Rightarrow> map (\<lambda>(q, a). (pid, c, Some a)) ms)) comments)"

definition row_pair :: "string \<times> string \<times> cell \<Rightarrow> (string \<times> string) list" where
  "row_pair r =
     (case r of (pid, commenter, pa) \<Rightarrow>
        (let post_author = (case pa of Some a \<Rightarrow> a | None \<Rightarrow> deleted)
         in if commenter = '''' \<or> commenter = deleted then []
            else if commenter = post_author then []
            else [(post_author, commenter)]))"

definition author_comment_pairs :: "row list \<Rightarrow> row list \<Rightarrow> (string \<times> string) list" where
  "author_comment_pairs posts comments = concat (map row_pair (merge_left comments posts))"

text \<open>\<open>collections.Counter\<close>: a dictionary in insertion order, key to count.\<close>

fun counter_incr :: "('k \<times> int) list \<Rightarrow> 'k \<Rightarrow> ('k \<times> int) list" where
  "counter_incr [] k = [(k, 1)]"
| "counter_incr ((k', n) # kvs) k =
     (if k' = k then (k', n + 1) # kvs else (k', n) # counter_incr kvs k)"

definition Counter :: "'k list \<Rightarrow> ('k \<times> int) list" where
  "Counter xs = foldl counter_incr [] xs"

definition reply_step :: "int \<Rightarrow> graph \<Rightarrow> (string \<times> string) \<times> int \<Rightarrow> graph" where
  "reply_step min_edge_weight G kv =
     (case kv of ((a, b), w) \<Rightarrow>
        if w \<ge> min_edge_weight then accumulate G a b w author_comment else G)"

definition reply_pass :: "int \<Rightarrow> graph \<Rightarrow> (string \<times> string) list \<Rightarrow> graph" where
  "reply_pass min_edge_weight G pairs = foldl (reply_step min_edge_weight) G (Counter pairs)"

subsection \<open>Co-comment edges (lines 137--148)\<close>

text \<open>
  \<open>groupby("post_id")\<close> visits the groups in sorted key order; each group keeps its
  rows in their order. \<open>combinations(xs, 2)\<close> yields the pairs of positions
  \<open>i < j\<close> in lexicographic order.
\<close>

definition group_keys :: "row list \<Rightarrow> string list" where
  "group_keys comments = sort (remdups (map fst comments))"

definition group_commenters :: "row list \<Rightarrow> string \<Rightarrow> string list" where
  "group_commenters comments pid = unique (map snd (filter (\<lambda>(q, c). q = pid) comments))"

fun combinations2 :: "'a list \<Rightarrow> ('a \<times> 'a) list" where
  "combinations2 [] = []"
| "combinations2 (x # xs) = map (Pair x) xs @ combinations2 xs"

definition co_step :: "graph \<Rightarrow> string \<times> string \<Rightarrow> graph" where
  "co_step G p = (case p of (u, v) \<Rightarrow> if u = v then G else accumulate G u v 1 co_comment)"

definition co_group :: "graph \<Rightarrow> string list \<Rightarrow> graph" where
  "co_group G commenters =
     (if length commenters < 2 then G else foldl co_step G (combinations2 commenters))"

definition co_pass :: "graph \<Rightarrow> row list \<Rightarrow> graph" where
  "co_pass G comments =
     foldl (\<lambda>G pid. co_group G (group_commenters comments pid)) G (group_keys comments)"

subsection \<open>The builder\<close>

text \<open>The graph after the nodes and the reply pass, before the co-comment pass.\<close>

definition reply_graph :: "raw_row list \<Rightarrow> raw_row list \<Rightarrow> int \<Rightarrow> graph" where
  "reply_graph posts_df comments_df min_edge_weight =
     (let posts = normalize posts_df;
          comments = normalize comments_df;
          G0 = add_nodes empty_graph (all_users posts comments)
      in reply_pass min_edge_weight G0 (author_comment_pairs posts comments))"

definition build_interaction_graph :: "raw_row list \<Rightarrow> raw_row list \<Rightarrow> int \<Rightarrow> graph" where
  "build_interaction_graph posts_df comments_df min_edge_weight =
     co_pass (reply_graph posts_df comments_df min_edge_weight) (normalize comments_df)"

section \<open>Centralities and ranking (lines 152--175)\<close>

text \<open>
  The three centralities are networkx's; the ranking takes them as parameters.
  \<open>pagerank\<close> may raise, which is \<open>Inl\<close>. Scores are reals; the ranking only reads and
  compares them. \<open>sort_values(by=[pagerank, degree, betweenness], ascending=False)\<close>
  on several columns is a stable sort on the keys in descending order.
\<close>

type_synonym scores = "string \<rightharpoonup> real"

record centrality =
  user :: string
  degree :: real
  betweenness :: real
  pagerank :: real

definition get_or :: "scores \<Rightarrow> string \<Rightarrow> real \<Rightarrow> real" where
  "get_or d n dflt = (case d n of Some x \<Rightarrow> x | None \<Rightarrow> dflt)"

definition sort_key_desc :: "centrality \<Rightarrow> real \<times> real \<times> real" where
  "sort_key_desc r = (- pagerank r, - degree r, - betweenness r)"

definition central_rows :: "scores \<Rightarrow> scores \<Rightarrow> scores \<Rightarrow> string list \<Rightarrow> centrality list" where
  "central_rows deg btw pr ns =
     map (\<lambda>n. \<lparr>user = n, degree = get_or deg n 0, betweenness = get_or btw n 0,
               pagerank = get_or pr n 0\<rparr>) ns"

text \<open>
  \<^verbatim>\<open>try: pr = nx.pagerank(G, weight="weight")
except Exception: pr = {n: 0.0 for n in G.nodes()}\<close>
\<close>

definition pagerank_or_zero :: "(graph \<Rightarrow> 'e + scores) \<Rightarrow> graph \<Rightarrow> scores" where
  "pagerank_or_zero nx_pagerank G =
     (case nx_pagerank G of
        Inr p \<Rightarrow> p
      | Inl e \<Rightarrow> (\<lambda>n. if n \<in> set (nodes G) then Some 0 else None))"

definition compute_centralities ::
  "(graph \<Rightarrow> scores) \<Rightarrow> (graph \<Rightarrow> scores) \<Rightarrow> (graph \<Rightarrow> 'e + scores) \<Rightarrow> graph option
     \<Rightarrow> centrality list" where
  "compute_centralities degree_centrality betweenness_centrality nx_pagerank g =
     (case g of
        None \<Rightarrow> []
      | Some G \<Rightarrow>
         (if length (nodes G) = 0 then []
          else
            (let deg = degree_centrality G;
                 btw = betweenness_centrality G;
                 pr = pagerank_or_zero nx_pagerank G
             in sort_key sort_key_desc (central_rows deg btw pr (nodes G)))))"

text \<open>
  The order of the ranking on two records: \<open>r\<close> is not below \<open>s\<close> when its scores,
  read as (pagerank, degree, betweenness), are lexicographically at least those of \<open>s\<close>.
\<close>

definition ranks_not_below :: "centrality \<Rightarrow> centrality \<Rightarrow> bool" where
  "ranks_not_below r s =
     (pagerank r > pagerank s \<or>
      (pagerank r = pagerank s \<and>
        (degree r > degree s \<or> (degree r = degree s \<and> betweenness r \<ge> betweenness s))))"

section \<open>Top-N extraction (lines 177--188)\<close>

text \<open>
  \<open>DataFrame.head(n)\<close> is \<open>df.iloc[:n]\<close>: the first \<open>n\<close> rows for \<open>n \<ge> 0\<close>, and all
  rows but the last \<open>|n|\<close> for a negative \<open>n\<close>.
\<close>

definition head :: "'a list \<Rightarrow> int \<Rightarrow> 'a list" where
  "head df n = (if n \<ge> 0 then take (nat n) df else take (length df - nat (- n)) df)"

text \<open>The rows \<open>save_top_influencers\<close> writes, and the \<open>top_nodes\<close> of \<open>draw_graph\<close>.\<close>

definition save_top_influencers :: "centrality list \<Rightarrow> int \<Rightarrow> centrality list" where
  "save_top_influencers df_central top_n = head df_central top_n"

definition top_nodes :: "centrality list \<Rightarrow> int \<Rightarrow> string list" where
  "top_nodes centrality_df top_n = map user (head centrality_df top_n)"

section \<open>Predicates and examples used in the statements\<close>

text \<open>
  Invariants of the graphs the builder produces: the adjacency is symmetric, every stored
  weight is at least a bound, no account is adjacent to itself.
\<close>

definition symmetric :: "graph \<Rightarrow> bool" where
  "symmetric G = (\<forall>u v. adj G (u, v) = adj G (v, u))"

definition min_weight :: "int \<Rightarrow> graph \<Rightarrow> bool" where
  "min_weight c G = (\<forall>k e. adj G k = Some e \<longrightarrow> c \<le> weight e)"

definition loop_free :: "graph \<Rightarrow> bool" where
  "loop_free G = (\<forall>u. adj G (u, u) = None)"

text \<open>The attribute dictionary that \<open>accumulate G a b w t\<close> leaves on the edge.\<close>

definition new_edge :: "graph \<Rightarrow> string \<Rightarrow> string \<Rightarrow> int \<Rightarrow> edge_type \<Rightarrow> edge_data" where
  "new_edge G a b w t =
     (case adj G (a, b) of
        Some e \<Rightarrow> e\<lparr>weight := weight e + w\<rparr>
      | None \<Rightarrow> \<lparr>weight = w, etype = t\<rparr>)"

text \<open>An ordered pair \<open>p\<close> names the undirected edge between \<open>u\<close> and \<open>v\<close>.\<close>

definition touches :: "string \<Rightarrow> string \<Rightarrow> string \<times> string \<Rightarrow> bool" where
  "touches u v p = (p = (u, v) \<or> p = (v, u))"

text \<open>
  What the reply pass adds for one ordered pair (post author, commenter): its count in
  the pair list when that reaches the threshold, nothing otherwise.
\<close>

definition kept :: "int \<Rightarrow> (string \<times> string) list \<Rightarrow> string \<times> string \<Rightarrow> int" where
  "kept m pairs k =
     (if k \<in> set pairs \<and> m \<le> int (count_list pairs k) then int (count_list pairs k) else 0)"

text \<open>The number of comment groups in which both accounts comment.\<close>

definition co_count :: "row list \<Rightarrow> string \<Rightarrow> string \<Rightarrow> nat" where
  "co_count comments u v =
     length (filter (\<lambda>pid. u \<in> set (group_commenters comments pid) \<and>
                            v \<in> set (group_commenters comments pid)) (group_keys comments))"

text \<open>Example inputs.\<close>

definition row_a :: centrality where
  "row_a = \<lparr>user = ''a'', degree = 1, betweenness = 0, pagerank = 1/2\<rparr>"

definition row_b :: centrality where
  "row_b = \<lparr>user = ''b'', degree = 1, betweenness = 0, pagerank = 1/2\<rparr>"

text \<open>
  One comment by \<open>bob\<close> on a post that the post relation does not have. In the graph,
  \<open>bob\<close> and the sentinel are joined by one edge, so both have degree centrality 1,
  betweenness 0 and PageRank 1/2.
\<close>

definition example_bob :: graph where
  "example_bob = build_interaction_graph [] [(Some ''p1'', Some ''bob'')] 1"

definition tied_degree :: "graph \<Rightarrow> scores" where
  "tied_degree G = (\<lambda>n. Some 1)"

text \<open>A degree score that is higher for the sentinel than for every other account.\<close>

definition skewed_degree :: "graph \<Rightarrow> scores" where
  "skewed_degree G = (\<lambda>n. if n = ''[deleted]'' then Some 1 else Some (1/2))"

definition tied_betweenness :: "graph \<Rightarrow> scores" where
  "tied_betweenness G = (\<lambda>n. Some 0)"

definition tied_pagerank :: "graph \<Rightarrow> nx_error + scores" where
  "tied_pagerank G = Inr (\<lambda>n. Some (1/2))"

definition failing_pagerank :: "graph \<Rightarrow> nx_error + scores" where
  "failing_pagerank G = Inl PowerIterationFailedConvergence"

section \<open>Lemmas on the graph operations\<close>

lemma adj_add_node [simp]: "adj (add_node G u) = adj G"
  by (simp add: add_node_def)

lemma nodes_add_node [simp]: "set (nodes (add_node G u)) = insert u (set (nodes G))"
  by (auto simp: add_node_def)

lemma adj_accumulate_fun:
  "adj (accumulate G a b w t) =
     (adj G)((a, b) \<mapsto> new_edge G a b w t, (b, a) \<mapsto> new_edge G a b w t)"
proof (cases "adj G (a, b)")
  case None
  then show ?thesis
    by (simp add: accumulate_def add_edge_def Let_def new_edge_def)
next
  case (Some e)
  then show ?thesis
    by (simp add: accumulate_def Let_def new_edge_def)
qed

lemma adj_accumulate_hit1: "adj (accumulate G a b w t) (a, b) = Some (new_edge G a b w t)"
  by (metis adj_accumulate_fun fun_upd_same fun_upd_other)

lemma adj_accumulate_hit2: "adj (accumulate G a b w t) (b, a) = Some (new_edge G a b w t)"
  by (metis adj_accumulate_fun fun_upd_same)

lemma adj_accumulate_miss:
  "k \<noteq> (a, b) \<Longrightarrow> k \<noteq> (b, a) \<Longrightarrow> adj (accumulate G a b w t) k = adj G k"
  by (metis adj_accumulate_fun fun_upd_other)

lemma adj_accumulate_cases:
  "adj (accumulate G a b w t) k = Some (new_edge G a b w t) \<or>
   adj (accumulate G a b w t) k = adj G k"
  by (metis adj_accumulate_hit1 adj_accumulate_hit2 adj_accumulate_miss)

lemma nodes_accumulate:
  "set (nodes (accumulate G a b w t)) =
     set (nodes G) \<union> (if has_edge G a b then {} else {a, b})"
proof (cases "adj G (a, b)")
  case None
  then show ?thesis
    by (auto simp: accumulate_def add_edge_def has_edge_def Let_def)
next
  case (Some e)
  then show ?thesis
    by (simp add: accumulate_def has_edge_def Let_def)
qed

lemma symmetricD: "symmetric G \<Longrightarrow> adj G (u, v) = adj G (v, u)"
  unfolding symmetric_def by blast

lemma touches_sym: "touches u v p \<longleftrightarrow> touches v u p"
  unfolding touches_def by blast

lemma touches_iff: "touches u v (a, b) \<longleftrightarrow> (u, v) = (a, b) \<or> (u, v) = (b, a)"
  unfolding touches_def by blast

lemma adj_accumulate_touch:
  "touches u v (a, b) \<Longrightarrow> adj (accumulate G a b w t) (u, v) = Some (new_edge G a b w t)"
  by (metis touches_iff adj_accumulate_hit1 adj_accumulate_hit2)

lemma adj_accumulate_other:
  "\<not> touches u v (a, b) \<Longrightarrow> adj (accumulate G a b w t) (u, v) = adj G (u, v)"
  by (metis touches_iff adj_accumulate_miss)

lemma symmetric_accumulate:
  assumes "symmetric G"
  shows "symmetric (accumulate G a b w t)"
  unfolding symmetric_def
proof (intro allI)
  fix u v
  show "adj (accumulate G a b w t) (u, v) = adj (accumulate G a b w t) (v, u)"
  proof (cases "touches u v (a, b)")
    case True
    then have "touches v u (a, b)"
      by (simp only: touches_sym)
    with True show ?thesis
      by (simp only: adj_accumulate_touch)
  next
    case False
    then have "\<not> touches v u (a, b)"
      using touches_sym by blast
    then have b: "adj (accumulate G a b w t) (v, u) = adj G (v, u)"
      by (rule adj_accumulate_other)
    have a: "adj (accumulate G a b w t) (u, v) = adj G (u, v)"
      using False by (rule adj_accumulate_other)
    show ?thesis
      unfolding a b using assms by (rule symmetricD)
  qed
qed

lemma weight_new_edge: "weight (new_edge G a b w t) = wt G a b + w"
  by (cases "adj G (a, b)") (simp_all add: new_edge_def wt_def)

lemma wt_symmetric: "symmetric G \<Longrightarrow> wt G u v = wt G v u"
  unfolding wt_def by (simp only: symmetricD [of G u v])

lemma wt_accumulate:
  assumes "symmetric G"
  shows "wt (accumulate G a b w t) u v = wt G u v + (if touches u v (a, b) then w else 0)"
proof (cases "touches u v (a, b)")
  case True
  then have "(u, v) = (a, b) \<or> (u, v) = (b, a)"
    by (simp only: touches_iff)
  then have old: "wt G u v = wt G a b"
    using wt_symmetric [OF assms, of b a] by auto
  have "wt (accumulate G a b w t) u v = weight (new_edge G a b w t)"
    unfolding wt_def by (simp only: adj_accumulate_touch [OF True] option.case)
  with old True show ?thesis
    by (simp only: weight_new_edge if_True)
next
  case False
  have "wt (accumulate G a b w t) u v = wt G u v"
    unfolding wt_def by (simp only: adj_accumulate_other [OF False])
  with False show ?thesis by simp
qed

lemma min_weight_accumulate:
  assumes "min_weight c G" and "c \<le> w" and "0 \<le> w"
  shows "min_weight c (accumulate G a b w t)"
  unfolding min_weight_def
proof (intro allI impI)
  fix k e'
  assume h: "adj (accumulate G a b w t) k = Some e'"
  have old: "c \<le> weight x" if "adj G j = Some x" for j x
    using assms(1) that unfolding min_weight_def by blast
  from adj_accumulate_cases [of G a b w t k] h
  have "e' = new_edge G a b w t \<or> adj G k = Some e'"
    by auto
  then show "c \<le> weight e'"
  proof
    assume e: "e' = new_edge G a b w t"
    show ?thesis
    proof (cases "adj G (a, b)")
      case None
      then have "weight e' = w"
        by (simp add: e new_edge_def)
      with assms(2) show ?thesis by simp
    next
      case (Some x)
      then have "weight e' = weight x + w"
        by (simp add: e new_edge_def)
      moreover have "c \<le> weight x"
        using Some by (rule old)
      ultimately show ?thesis
        using assms(3) by simp
    qed
  next
    assume "adj G k = Some e'"
    then show ?thesis by (rule old)
  qed
qed

lemma loop_free_accumulate:
  assumes "loop_free G" and "a \<noteq> b"
  shows "loop_free (accumulate G a b w t)"
  unfolding loop_free_def
proof (intro allI)
  fix u
  from assms(2) have "(u, u) \<noteq> (a, b)" and "(u, u) \<noteq> (b, a)"
    by auto
  then have "adj (accumulate G a b w t) (u, u) = adj G (u, u)"
    by (rule adj_accumulate_miss)
  with assms(1) show "adj (accumulate G a b w t) (u, u) = None"
    unfolding loop_free_def by simp
qed

lemma has_edge_accumulate:
  "has_edge (accumulate G a b w t) u v \<longleftrightarrow> has_edge G u v \<or> touches u v (a, b)"
proof (cases "touches u v (a, b)")
  case True
  then show ?thesis
    by (simp add: has_edge_def adj_accumulate_touch [OF True])
next
  case False
  then show ?thesis
    by (simp add: has_edge_def adj_accumulate_other [OF False])
qed

lemma has_edge_wt: "min_weight 1 G \<Longrightarrow> has_edge G u v \<longleftrightarrow> 1 \<le> wt G u v"
  unfolding min_weight_def has_edge_def wt_def
  by (auto split: option.splits)

lemma min_weight_wt: "min_weight c G \<Longrightarrow> has_edge G u v \<Longrightarrow> c \<le> wt G u v"
  unfolding min_weight_def has_edge_def wt_def
  by (auto split: option.splits)

lemma adj_add_nodes [simp]: "adj (add_nodes G us) = adj G"
  unfolding add_nodes_def by (induction us arbitrary: G) simp_all

lemma nodes_add_nodes [simp]: "set (nodes (add_nodes G us)) = set (nodes G) \<union> set us"
  unfolding add_nodes_def by (induction us arbitrary: G) auto

subsection \<open>The counter\<close>

lemma fst_counter_incr: "fst ` set (counter_incr kvs k) = insert k (fst ` set kvs)"
  by (induction kvs k rule: counter_incr.induct) auto

lemma distinct_counter_incr:
  "distinct (map fst kvs) \<Longrightarrow> distinct (map fst (counter_incr kvs k))"
proof (induction kvs k rule: counter_incr.induct)
  case (1 k)
  then show ?case by simp
next
  case (2 k' n kvs k)
  then show ?case
    using fst_counter_incr [of kvs k] by auto
qed

lemma map_of_counter_incr:
  "map_of (counter_incr kvs k) =
     (map_of kvs)(k \<mapsto> (case map_of kvs k of None \<Rightarrow> 1 | Some n \<Rightarrow> n + 1))"
  by (induction kvs k rule: counter_incr.induct) (auto simp: fun_eq_iff)

lemma Counter_snoc: "Counter (xs @ [x]) = counter_incr (Counter xs) x"
  by (simp add: Counter_def)

lemma distinct_Counter: "distinct (map fst (Counter xs))"
proof (induction xs rule: rev_induct)
  case Nil
  then show ?case by (simp add: Counter_def)
next
  case (snoc x xs)
  then show ?case by (simp add: Counter_snoc distinct_counter_incr)
qed

lemma map_of_Counter:
  "map_of (Counter xs) k = (if k \<in> set xs then Some (int (count_list xs k)) else None)"
proof (induction xs rule: rev_induct)
  case Nil
  then show ?case by (simp add: Counter_def)
next
  case (snoc x xs)
  then show ?case
    by (auto simp: Counter_snoc map_of_counter_incr count_list_0_iff)
qed

lemma sum_distinct_keys:
  "distinct (map fst kvs) \<Longrightarrow>
   sum_list (map (\<lambda>kv. if fst kv = k0 then g (snd kv) else 0) kvs) =
     (case map_of kvs k0 of None \<Rightarrow> (0::int) | Some w \<Rightarrow> g w)"
proof (induction kvs)
  case Nil
  then show ?case by simp
next
  case (Cons kv kvs)
  obtain k w where kv: "kv = (k, w)" by (cases kv)
  show ?case
  proof (cases "k = k0")
    case True
    with Cons.prems kv have "map_of kvs k0 = None"
      by (simp add: map_of_eq_None_iff)
    with Cons kv True show ?thesis by simp
  next
    case False
    with Cons kv show ?thesis by simp
  qed
qed

subsection \<open>The reply pass\<close>

lemma reply_step_props:
  assumes "symmetric G"
  shows "symmetric (reply_step m G kv)"
    and "wt (reply_step m G kv) u v =
           wt G u v + (if m \<le> snd kv \<and> touches u v (fst kv) then snd kv else 0)"
  using assms
  by (auto simp: reply_step_def symmetric_accumulate wt_accumulate split: prod.splits)

lemma foldl_reply_step:
  "symmetric G \<Longrightarrow>
   symmetric (foldl (reply_step m) G kvs) \<and>
   wt (foldl (reply_step m) G kvs) u v =
     wt G u v + sum_list (map (\<lambda>kv. if m \<le> snd kv \<and> touches u v (fst kv) then snd kv else 0) kvs)"
proof (induction kvs arbitrary: G)
  case Nil
  then show ?case by simp
next
  case (Cons kv kvs)
  from Cons.prems have s: "symmetric (reply_step m G kv)"
    by (rule reply_step_props(1))
  from Cons.IH [OF s] reply_step_props(2) [OF Cons.prems, of m kv u v]
  show ?case by simp
qed

lemma touches_split:
  "u \<noteq> v \<Longrightarrow>
   (if m \<le> snd kv \<and> touches u v (fst kv) then snd kv else (0::int)) =
     (if fst kv = (u, v) then (if m \<le> snd kv then snd kv else 0) else 0) +
     (if fst kv = (v, u) then (if m \<le> snd kv then snd kv else 0) else 0)"
  by (auto simp: touches_def)

lemma kept_sum:
  "sum_list (map (\<lambda>kv. if fst kv = k then (if m \<le> snd kv then snd kv else 0) else 0)
      (Counter pairs)) = kept m pairs k"
  using sum_distinct_keys [OF distinct_Counter, of k "\<lambda>w. if m \<le> w then w else 0" pairs]
  by (simp add: map_of_Counter kept_def)

lemma wt_reply_pass:
  assumes "symmetric G" and "u \<noteq> v"
  shows "wt (reply_pass m G pairs) u v = wt G u v + kept m pairs (u, v) + kept m pairs (v, u)"
proof -
  have "wt (reply_pass m G pairs) u v =
          wt G u v + sum_list (map (\<lambda>kv. if m \<le> snd kv \<and> touches u v (fst kv) then snd kv else 0)
            (Counter pairs))"
    using foldl_reply_step [OF assms(1)] by (simp add: reply_pass_def)
  also have "\<dots> = wt G u v + kept m pairs (u, v) + kept m pairs (v, u)"
    by (simp only: touches_split [OF assms(2)] sum_list_addf kept_sum)
  finally show ?thesis .
qed

lemma symmetric_reply_pass: "symmetric G \<Longrightarrow> symmetric (reply_pass m G pairs)"
  using foldl_reply_step by (simp add: reply_pass_def)
subsection \<open>The co-comment pass\<close>

lemma co_step_props:
  assumes "symmetric G"
  shows "symmetric (co_step G p)"
    and "wt (co_step G p) u v =
           wt G u v + (if fst p \<noteq> snd p \<and> touches u v p then 1 else 0)"
  using assms
  by (auto simp: co_step_def symmetric_accumulate wt_accumulate split: prod.splits)

lemma foldl_co_step:
  "symmetric G \<Longrightarrow>
   symmetric (foldl co_step G ps) \<and>
   wt (foldl co_step G ps) u v =
     wt G u v + int (length (filter (\<lambda>p. fst p \<noteq> snd p \<and> touches u v p) ps))"
proof (induction ps arbitrary: G)
  case Nil
  then show ?case by simp
next
  case (Cons p ps)
  from Cons.prems have s: "symmetric (co_step G p)"
    by (rule co_step_props(1))
  from Cons.IH [OF s] co_step_props(2) [OF Cons.prems, of p u v]
  show ?case by simp
qed

lemma length_filter_eq:
  "distinct xs \<Longrightarrow> length (filter (\<lambda>y. y = c) xs) = (if c \<in> set xs then 1 else 0)"
  by (induction xs) auto

lemma combinations2_set:
  "(x, y) \<in> set (combinations2 xs) \<Longrightarrow> x \<in> set xs \<and> y \<in> set xs"
  by (induction xs) auto

lemma combinations2_neq:
  "distinct xs \<Longrightarrow> (x, y) \<in> set (combinations2 xs) \<Longrightarrow> x \<noteq> y"
  by (induction xs) (auto dest: combinations2_set)

lemma double_length_combinations2:
  "2 * length (combinations2 xs) = length xs * (length xs - 1)"
proof (induction xs)
  case Nil
  then show ?case by simp
next
  case (Cons x xs)
  then show ?case by (cases xs) (simp_all add: algebra_simps)
qed

lemma length_combinations2:
  "length (combinations2 xs) = length xs * (length xs - 1) div 2"
  using double_length_combinations2 [of xs] by simp

lemma head_pairs_touching:
  assumes "distinct (x # xs)"
  shows "length (filter (\<lambda>p. fst p \<noteq> snd p \<and> touches u v p) (map (Pair x) xs)) =
           (if u \<noteq> v \<and> ((x = u \<and> v \<in> set xs) \<or> (x = v \<and> u \<in> set xs)) then 1 else 0)"
proof -
  from assms have nx: "x \<notin> set xs" and d: "distinct xs"
    by simp_all
  have len: "length (filter (\<lambda>p. fst p \<noteq> snd p \<and> touches u v p) (map (Pair x) xs)) =
               length (filter (\<lambda>y. x \<noteq> y \<and> touches u v (x, y)) xs)"
    by (simp add: filter_map comp_def)
  consider (same) "u = v" | (xu) "u \<noteq> v" "x = u" | (xv) "u \<noteq> v" "x = v"
    | (none) "u \<noteq> v" "x \<noteq> u" "x \<noteq> v"
    by blast
  then show ?thesis
  proof cases
    case same
    then have "filter (\<lambda>y. x \<noteq> y \<and> touches u v (x, y)) xs = []"
      by (auto simp: filter_empty_conv touches_def)
    with len same show ?thesis by simp
  next
    case xu
    then have "filter (\<lambda>y. x \<noteq> y \<and> touches u v (x, y)) xs = filter (\<lambda>y. y = v) xs"
      by (intro filter_cong) (auto simp: touches_def)
    with len xu d show ?thesis
      by (simp add: length_filter_eq)
  next
    case xv
    then have "filter (\<lambda>y. x \<noteq> y \<and> touches u v (x, y)) xs = filter (\<lambda>y. y = u) xs"
      by (intro filter_cong) (auto simp: touches_def)
    with len xv d show ?thesis
      by (simp add: length_filter_eq)
  next
    case none
    then have "filter (\<lambda>y. x \<noteq> y \<and> touches u v (x, y)) xs = []"
      by (auto simp: filter_empty_conv touches_def)
    with len none show ?thesis by simp
  qed
qed

lemma count_touching:
  "distinct xs \<Longrightarrow>
   length (filter (\<lambda>p. fst p \<noteq> snd p \<and> touches u v p) (combinations2 xs)) =
     (if u \<noteq> v \<and> u \<in> set xs \<and> v \<in> set xs then 1 else 0)"
proof (induction xs)
  case Nil
  then show ?case by simp
next
  case (Cons x xs)
  from Cons.prems have nx: "x \<notin> set xs" and d: "distinct xs"
    by simp_all
  have h: "length (filter (\<lambda>p. fst p \<noteq> snd p \<and> touches u v p) (map (Pair x) xs)) =
           (if u \<noteq> v \<and> ((x = u \<and> v \<in> set xs) \<or> (x = v \<and> u \<in> set xs)) then 1 else 0)"
    using Cons.prems by (rule head_pairs_touching)
  have t: "length (filter (\<lambda>p. fst p \<noteq> snd p \<and> touches u v p) (combinations2 xs)) =
           (if u \<noteq> v \<and> u \<in> set xs \<and> v \<in> set xs then 1 else 0)"
    using d by (rule Cons.IH)
  have "length (filter (\<lambda>p. fst p \<noteq> snd p \<and> touches u v p) (combinations2 (x # xs))) =
          (if u \<noteq> v \<and> ((x = u \<and> v \<in> set xs) \<or> (x = v \<and> u \<in> set xs)) then 1 else 0) +
          (if u \<noteq> v \<and> u \<in> set xs \<and> v \<in> set xs then 1 else 0)"
    by (simp only: combinations2.simps filter_append length_append h t)
  also have "\<dots> = (if u \<noteq> v \<and> u \<in> set (x # xs) \<and> v \<in> set (x # xs) then 1 else 0)"
    using nx by auto
  finally show ?case .
qed

lemma distinct_unique: "distinct (unique xs)"
  by (simp add: unique_def)

lemma set_unique: "set (unique xs) = set xs"
  by (simp add: unique_def)

lemma length_unique: "length (unique xs) = card (set xs)"
  using distinct_card [OF distinct_unique, of xs] by (simp add: set_unique)

lemma distinct_group_commenters: "distinct (group_commenters comments pid)"
  by (simp add: group_commenters_def distinct_unique)

lemma set_group_commenters:
  "set (group_commenters comments pid) = {c. (pid, c) \<in> set comments}"
  by (force simp: group_commenters_def set_unique)

lemma set_group_keys: "set (group_keys comments) = fst ` set comments"
  by (simp add: group_keys_def)

lemma co_group_eq: "co_group G cs = foldl co_step G (combinations2 cs)"
proof (cases cs)
  case Nil
  then show ?thesis by (simp add: co_group_def)
next
  case (Cons c cs')
  then show ?thesis by (cases cs') (simp_all add: co_group_def)
qed

lemma co_group_props:
  assumes "symmetric G" and "distinct cs"
  shows "symmetric (co_group G cs)"
    and "wt (co_group G cs) u v =
           wt G u v + (if u \<noteq> v \<and> u \<in> set cs \<and> v \<in> set cs then 1 else 0)"
  using foldl_co_step [OF assms(1), of "combinations2 cs" u v] count_touching [OF assms(2), of u v]
  by (simp_all add: co_group_eq)

lemma foldl_co_group:
  "symmetric G \<Longrightarrow>
   symmetric (foldl (\<lambda>G pid. co_group G (group_commenters comments pid)) G keys) \<and>
   wt (foldl (\<lambda>G pid. co_group G (group_commenters comments pid)) G keys) u v =
     wt G u v +
     int (length (filter (\<lambda>pid. u \<noteq> v \<and> u \<in> set (group_commenters comments pid) \<and>
                                 v \<in> set (group_commenters comments pid)) keys))"
proof (induction keys arbitrary: G)
  case Nil
  then show ?case by simp
next
  case (Cons pid keys)
  let ?G = "co_group G (group_commenters comments pid)"
  have s: "symmetric ?G"
    using Cons.prems distinct_group_commenters by (rule co_group_props(1))
  have w: "wt ?G u v = wt G u v +
             (if u \<noteq> v \<and> u \<in> set (group_commenters comments pid) \<and>
                 v \<in> set (group_commenters comments pid) then 1 else 0)"
    using Cons.prems distinct_group_commenters by (rule co_group_props(2))
  from Cons.IH [OF s] w show ?case by simp
qed

lemma symmetric_co_pass: "symmetric G \<Longrightarrow> symmetric (co_pass G comments)"
  using foldl_co_group by (simp add: co_pass_def)

lemma wt_co_pass:
  assumes "symmetric G" and "u \<noteq> v"
  shows "wt (co_pass G comments) u v = wt G u v + int (co_count comments u v)"
  using foldl_co_group [OF assms(1), of comments "group_keys comments" u v] assms(2)
  by (simp add: co_pass_def co_count_def)

subsection \<open>The builder\<close>

lemma symmetric_start: "symmetric (add_nodes empty_graph us)"
  by (simp add: symmetric_def empty_graph_def)

lemma wt_start: "wt (add_nodes empty_graph us) u v = 0"
  by (simp add: wt_def empty_graph_def)

lemma symmetric_reply_graph: "symmetric (reply_graph P C m)"
  by (simp add: reply_graph_def Let_def symmetric_reply_pass symmetric_start)

lemma wt_reply_graph:
  "u \<noteq> v \<Longrightarrow>
   wt (reply_graph P C m) u v =
     kept m (author_comment_pairs (normalize P) (normalize C)) (u, v) +
     kept m (author_comment_pairs (normalize P) (normalize C)) (v, u)"
  by (simp add: reply_graph_def Let_def wt_reply_pass [OF symmetric_start] wt_start)

lemma wt_build:
  "u \<noteq> v \<Longrightarrow>
   wt (build_interaction_graph P C m) u v =
     kept m (author_comment_pairs (normalize P) (normalize C)) (u, v) +
     kept m (author_comment_pairs (normalize P) (normalize C)) (v, u) +
     int (co_count (normalize C) u v)"
  by (simp add: build_interaction_graph_def wt_co_pass [OF symmetric_reply_graph] wt_reply_graph)


section \<open>Top-N extraction\<close>

lemma head_nonneg: "0 \<le> n \<Longrightarrow> head df n = take (min (nat n) (length df)) df"
  by (simp add: head_def min_def)

text \<open>
  Claim C8, as amended. For \<open>n \<ge> 0\<close> the extraction returns the first \<open>n\<close> records,
  \<open>n\<close> clamped to the length of the list (so none for \<open>n = 0\<close>). For a negative \<open>n\<close> it
  returns all records but the last \<open>|n|\<close>, which is empty only when the list has at most
  \<open>|n|\<close> records. \<open>top_nodes\<close> of \<open>draw_graph\<close> reads the same rows.
\<close>

theorem top_n_extraction:
  "(0 \<le> n \<longrightarrow> save_top_influencers df n = take (min (nat n) (length df)) df
        \<and> top_nodes df n = map user (take (min (nat n) (length df)) df))
   \<and> (n < 0 \<longrightarrow> save_top_influencers df n = take (length df - nat (- n)) df
        \<and> top_nodes df n = map user (take (length df - nat (- n)) df)
        \<and> (save_top_influencers df n = [] \<longleftrightarrow> length df \<le> nat (- n)))"
proof -
  have a: "0 \<le> n \<Longrightarrow> head df n = take (min (nat n) (length df)) df"
    by (rule head_nonneg)
  have b: "n < 0 \<Longrightarrow> head df n = take (length df - nat (- n)) df"
    by (simp add: head_def)
  show ?thesis
    using a b by (auto simp: save_top_influencers_def top_nodes_def)
qed

text \<open>
  The extraction on a list of two records, for \<open>n\<close> = 1, 5, 0, -1 and -2.
\<close>

theorem top_n_extraction_witness:
  "save_top_influencers [row_a, row_b] 1 = [row_a]
   \<and> save_top_influencers [row_a, row_b] 5 = [row_a, row_b]
   \<and> save_top_influencers [row_a, row_b] 0 = []
   \<and> save_top_influencers [row_a, row_b] (- 1) = [row_a]
   \<and> save_top_influencers [row_a, row_b] (- 2) = []"
  using top_n_extraction [of 1 "[row_a, row_b]"] top_n_extraction [of 5 "[row_a, row_b]"]
    top_n_extraction [of 0 "[row_a, row_b]"] top_n_extraction [of "- 1" "[row_a, row_b]"]
    top_n_extraction [of "- 2" "[row_a, row_b]"]
  by simp

text \<open>
  Claim C8 as stated fails for a negative \<open>n\<close>: \<open>head(-1)\<close> of two records is the first
  record, not the empty list.
\<close>

theorem top_n_negative_counterexample:
  "(- 1 :: int) \<le> 0 \<and> save_top_influencers [row_a, row_b] (- 1) = [row_a]
   \<and> top_nodes [row_a, row_b] (- 1) = [''a'']"
  by (simp add: save_top_influencers_def top_nodes_def head_def row_a_def)

section \<open>Column detection\<close>

lemma find_author_None:
  "(\<forall>c \<in> set columns. lower c \<notin> set comment_author_names) \<Longrightarrow>
   find (\<lambda>c. lower c \<in> set comment_author_names) columns = None"
  by (simp add: find_None_iff)

lemma detect_post_col_nonempty: "columns \<noteq> [] \<Longrightarrow> \<exists>p. detect_comment_post_col columns = Inr p"
  by (cases columns) (auto simp: detect_comment_post_col_def split: option.splits)

text \<open>
  Claim C2, as amended. When no column of the comment relation lower-cases to one of the
  five author names, the detection raises no schema error: it succeeds and takes the
  second column as the comment author, or the first when there is only one.
\<close>

theorem comment_author_fallback:
  assumes "columns \<noteq> []"
    and "\<forall>c \<in> set columns. lower c \<notin> set comment_author_names"
  shows "\<exists>p. detect_comment_cols columns =
           Inr (p, if length columns > 1 then columns ! 1 else columns ! 0)"
proof -
  have f: "find (\<lambda>c. lower c \<in> set comment_author_names) columns = None"
    using assms(2) by (rule find_author_None)
  obtain p where p: "detect_comment_post_col columns = Inr p"
    using detect_post_col_nonempty [OF assms(1)] by auto
  have "detect_comment_author_col columns =
          Inr (if length columns > 1 then columns ! 1 else columns ! 0)"
    using f assms(1) by (cases columns) (simp_all add: detect_comment_author_col_def)
  with p assms(1) show ?thesis
    by (cases columns) (simp_all add: detect_comment_cols_def)
qed

lemma lower_post_id: "lower ''post_id'' = ''post_id''" by code_simp

lemma lower_body: "lower ''body'' = ''body''" by code_simp

text \<open>
  The fallback on the columns \<open>post_id, body\<close> and on the single column \<open>body\<close>.
\<close>

theorem comment_author_fallback_witness:
  "detect_comment_cols [''post_id'', ''body''] = Inr (''post_id'', ''body'')
   \<and> detect_comment_cols [''body''] = Inr (''body'', ''body'')"
proof -
  have h2: "\<forall>c \<in> set [''post_id'', ''body'']. lower c \<notin> set comment_author_names"
    by (simp add: lower_post_id lower_body comment_author_names_def)
  have h1: "\<forall>c \<in> set [''body'']. lower c \<notin> set comment_author_names"
    by (simp add: lower_body comment_author_names_def)
  have n2: "[''post_id'', ''body''] \<noteq> []" and n1: "[''body''] \<noteq> []"
    by simp_all
  have e2: "detect_comment_cols [''post_id'', ''body''] = Inr (''post_id'', ''body'')"
    by code_simp
  have e1: "detect_comment_cols [''body''] = Inr (''body'', ''body'')"
    by code_simp
  show ?thesis
    using comment_author_fallback [OF n2 h2] comment_author_fallback [OF n1 h1] e2 e1
    by simp
qed

text \<open>
  Claim C2 as stated fails: the columns \<open>post_id, body\<close> hold no author column, and the
  detection returns \<open>body\<close> as the comment author instead of failing.
\<close>

theorem no_schema_error_counterexample:
  "find (\<lambda>c. lower c \<in> set comment_author_names) [''post_id'', ''body''] = None
   \<and> detect_comment_cols [''post_id'', ''body''] = Inr (''post_id'', ''body'')"
  by code_simp

section \<open>Ranking\<close>

lemma key_le_iff: "sort_key_desc r \<le> sort_key_desc s \<longleftrightarrow> ranks_not_below r s"
  by (auto simp: sort_key_desc_def ranks_not_below_def less_eq_prod_def)

lemma sorted_ranking: "sorted_wrt ranks_not_below (sort_key sort_key_desc rs)"
proof -
  have "sorted (map sort_key_desc (sort_key sort_key_desc rs))"
    by (rule sorted_sort_key)
  then show ?thesis
    by (simp add: sorted_map key_le_iff)
qed

lemma central_rows_user: "map user (central_rows deg btw pr ns) = ns"
  by (simp add: central_rows_def comp_def)

lemma central_rows_pagerank:
  "r \<in> set (central_rows deg btw pr ns) \<Longrightarrow> pagerank r = get_or pr (user r) 0"
  by (auto simp: central_rows_def)

lemma compute_centralities_Some:
  "compute_centralities dc bc pg (Some G) =
     sort_key sort_key_desc (central_rows (dc G) (bc G) (pagerank_or_zero pg G) (nodes G))"
  by (simp add: compute_centralities_def central_rows_def Let_def)

text \<open>
  Claim C3, as amended. The ranked list is sorted in descending order of PageRank, then
  degree centrality, then betweenness centrality; it has one record per node; and the
  records whose three scores are equal keep the order in which the graph holds their
  nodes (the sort is stable), whatever their account identifiers.
\<close>

theorem ranking_order:
  "sorted_wrt ranks_not_below (compute_centralities dc bc pg (Some G))
   \<and> mset (map user (compute_centralities dc bc pg (Some G))) = mset (nodes G)
   \<and> filter (\<lambda>r. sort_key_desc r = k) (compute_centralities dc bc pg (Some G)) =
       filter (\<lambda>r. sort_key_desc r = k)
         (central_rows (dc G) (bc G) (pagerank_or_zero pg G) (nodes G))"
proof -
  let ?rows = "central_rows (dc G) (bc G) (pagerank_or_zero pg G) (nodes G)"
  have "mset (map user (sort_key sort_key_desc ?rows)) = mset (nodes G)"
    by (metis central_rows_user mset_map mset_sort)
  then show ?thesis
    by (simp only: compute_centralities_Some sorted_ranking sort_key_stable simp_thms)
qed

lemma central_rows_failed:
  "pg G = Inl e \<Longrightarrow>
   central_rows (dc G) (bc G) (pagerank_or_zero pg G) (nodes G) =
     map (\<lambda>n. \<lparr>user = n, degree = get_or (dc G) n 0, betweenness = get_or (bc G) n 0,
               pagerank = 0\<rparr>) (nodes G)"
  by (simp add: central_rows_def pagerank_or_zero_def get_or_def)

lemma central_rows_scores:
  "r \<in> set (central_rows deg btw pr ns) \<Longrightarrow>
   degree r = get_or deg (user r) 0 \<and> betweenness r = get_or btw (user r) 0"
  by (auto simp: central_rows_def)

text \<open>
  Claim C7. When \<open>nx.pagerank\<close> raises, the table is the ranking of the records that
  carry, for every node of the graph, its degree and betweenness centrality and the
  PageRank 0: it is sorted in the ranking order, it has one record per node, and every
  record has PageRank 0 and the two other scores of its node. A graph with no node, and
  no graph at all, give the empty table.
\<close>

theorem pagerank_failure_recovered:
  "(pg G = Inl e \<longrightarrow>
      compute_centralities dc bc pg (Some G) =
        sort_key sort_key_desc
          (map (\<lambda>n. \<lparr>user = n, degree = get_or (dc G) n 0, betweenness = get_or (bc G) n 0,
                    pagerank = 0\<rparr>) (nodes G))
      \<and> sorted_wrt ranks_not_below (compute_centralities dc bc pg (Some G))
      \<and> mset (map user (compute_centralities dc bc pg (Some G))) = mset (nodes G)
      \<and> (\<forall>r \<in> set (compute_centralities dc bc pg (Some G)).
            pagerank r = 0 \<and> degree r = get_or (dc G) (user r) 0 \<and>
            betweenness r = get_or (bc G) (user r) 0))
   \<and> (nodes G = [] \<longrightarrow> compute_centralities dc bc pg (Some G) = [])
   \<and> compute_centralities dc bc pg None = []"
proof -
  let ?rows = "central_rows (dc G) (bc G) (pagerank_or_zero pg G) (nodes G)"
  let ?table = "compute_centralities dc bc pg (Some G)"
  have c: "?table = sort_key sort_key_desc ?rows"
    by (rule compute_centralities_Some)
  have m: "mset (map user ?table) = mset (nodes G)"
    unfolding c by (metis central_rows_user mset_map mset_sort)
  have s: "sorted_wrt ranks_not_below ?table"
    unfolding c by (rule sorted_ranking)
  have mem: "set ?table = set ?rows"
    unfolding c by simp
  have z: "pagerank r = 0" if "pg G = Inl e" and "r \<in> set ?rows" for r
  proof -
    from that(2) have u: "user r \<in> set (nodes G)"
      by (auto simp: central_rows_def)
    from that(2) have "pagerank r = get_or (pagerank_or_zero pg G) (user r) 0"
      by (rule central_rows_pagerank)
    with u that(1) show ?thesis
      by (simp add: pagerank_or_zero_def get_or_def)
  qed
  have d: "degree r = get_or (dc G) (user r) 0 \<and> betweenness r = get_or (bc G) (user r) 0"
    if "r \<in> set ?rows" for r
    using that by (rule central_rows_scores)
  have eq: "?table =
        sort_key sort_key_desc
          (map (\<lambda>n. \<lparr>user = n, degree = get_or (dc G) n 0, betweenness = get_or (bc G) n 0,
                    pagerank = 0\<rparr>) (nodes G))" if "pg G = Inl e"
    unfolding c using that by (simp only: central_rows_failed)
  have failed: "pg G = Inl e \<longrightarrow>
      ?table =
        sort_key sort_key_desc
          (map (\<lambda>n. \<lparr>user = n, degree = get_or (dc G) n 0, betweenness = get_or (bc G) n 0,
                    pagerank = 0\<rparr>) (nodes G))
      \<and> sorted_wrt ranks_not_below ?table
      \<and> mset (map user ?table) = mset (nodes G)
      \<and> (\<forall>r \<in> set ?table.
            pagerank r = 0 \<and> degree r = get_or (dc G) (user r) 0 \<and>
            betweenness r = get_or (bc G) (user r) 0)"
    using eq s m z d unfolding mem by blast
  have empty: "nodes G = [] \<longrightarrow> ?table = []"
    by (simp add: compute_centralities_def)
  have none: "compute_centralities dc bc pg None = []"
    by (simp add: compute_centralities_def)
  from failed empty none show ?thesis
    by (intro conjI)
qed

text \<open>
  The ranking of \<open>example_bob\<close> under tied scores: sorted, one record per node, in node
  order.
\<close>

theorem ranking_order_witness:
  "sorted_wrt ranks_not_below
     (compute_centralities tied_degree tied_betweenness tied_pagerank (Some example_bob))
   \<and> map user (compute_centralities tied_degree tied_betweenness tied_pagerank
        (Some example_bob)) = [''bob'', ''[deleted]'']"
proof -
  have e: "map user (compute_centralities tied_degree tied_betweenness tied_pagerank
             (Some example_bob)) = [''bob'', ''[deleted]'']"
    by code_simp
  have t: "sorted_wrt ranks_not_below
             (compute_centralities tied_degree tied_betweenness tied_pagerank (Some example_bob))"
    using ranking_order [of tied_degree tied_betweenness tied_pagerank example_bob] by blast
  from t e show ?thesis by blast
qed

text \<open>
  Claim C3 as stated fails on its tie-break: in the ranking of \<open>example_bob\<close> the two
  records have equal scores, and \<open>bob\<close> comes before \<open>[deleted]\<close> although
  \<open>[deleted]\<close> is the lexicographically smaller identifier.
\<close>

theorem tie_break_counterexample:
  "map user (compute_centralities tied_degree tied_betweenness tied_pagerank
      (Some example_bob)) = [''bob'', ''[deleted]'']
   \<and> map sort_key_desc (compute_centralities tied_degree tied_betweenness tied_pagerank
        (Some example_bob)) = [(- (1/2), - 1, 0), (- (1/2), - 1, 0)]
   \<and> ''[deleted]'' < ''bob''"
  by code_simp

text \<open>
  A failing PageRank on \<open>example_bob\<close>, whose nodes are \<open>bob\<close> and the sentinel in this
  order, with a degree score that is higher for the sentinel: the table ranks the
  sentinel first. And a failing PageRank on the empty graph.
\<close>

theorem pagerank_failure_recovered_witness:
  "failing_pagerank example_bob = Inl PowerIterationFailedConvergence
   \<and> nodes example_bob = [''bob'', ''[deleted]'']
   \<and> map user (compute_centralities skewed_degree tied_betweenness failing_pagerank
        (Some example_bob)) = [''[deleted]'', ''bob'']
   \<and> map degree (compute_centralities skewed_degree tied_betweenness failing_pagerank
        (Some example_bob)) = [1, 1/2]
   \<and> map betweenness (compute_centralities skewed_degree tied_betweenness failing_pagerank
        (Some example_bob)) = [0, 0]
   \<and> map pagerank (compute_centralities skewed_degree tied_betweenness failing_pagerank
        (Some example_bob)) = [0, 0]
   \<and> sorted_wrt ranks_not_below
        (compute_centralities skewed_degree tied_betweenness failing_pagerank (Some example_bob))
   \<and> nodes empty_graph = []
   \<and> compute_centralities skewed_degree tied_betweenness failing_pagerank (Some empty_graph) = []"
proof -
  have f: "failing_pagerank example_bob = Inl PowerIterationFailedConvergence"
    by (simp add: failing_pagerank_def)
  have e: "nodes example_bob = [''bob'', ''[deleted]'']
     \<and> map user (compute_centralities skewed_degree tied_betweenness failing_pagerank
          (Some example_bob)) = [''[deleted]'', ''bob'']
     \<and> map degree (compute_centralities skewed_degree tied_betweenness failing_pagerank
          (Some example_bob)) = [1, 1/2]
     \<and> map betweenness (compute_centralities skewed_degree tied_betweenness failing_pagerank
          (Some example_bob)) = [0, 0]
     \<and> map pagerank (compute_centralities skewed_degree tied_betweenness failing_pagerank
          (Some example_bob)) = [0, 0]"
    by code_simp
  have n: "nodes empty_graph = []"
    by (simp add: empty_graph_def)
  have t: "compute_centralities skewed_degree tied_betweenness failing_pagerank
             (Some empty_graph) = []"
    using pagerank_failure_recovered
      [of failing_pagerank empty_graph PowerIterationFailedConvergence skewed_degree
        tied_betweenness] n
    by blast
  have z: "sorted_wrt ranks_not_below
        (compute_centralities skewed_degree tied_betweenness failing_pagerank (Some example_bob))"
    using pagerank_failure_recovered
      [of failing_pagerank example_bob PowerIterationFailedConvergence skewed_degree
        tied_betweenness] f
    by blast
  from f e n t z show ?thesis by blast
qed

end
